theory Spec2Isabelle
  imports Main "HOL-Library.Word"
begin

section \<open>JavaScript strings\<close>

text \<open>
  A JavaScript string is a sequence of UTF-16 code units, and a regular expression without
  the \<^verbatim>\<open>u\<close> flag matches code unit by code unit. The page text, the URLs and the
  digit groups are therefore lists of 16-bit words. \<open>js\<close> writes an ASCII literal as
  such a list.
\<close>

type_synonym jsstring = "16 word list"

definition js :: "string \<Rightarrow> jsstring" where
  "js s = map of_char s"

section \<open>The descriptor pattern of \<^verbatim>\<open>fetchGooglePhotos\<close>\<close>

text \<open>
  Line 25 of \<^verbatim>\<open>gallery.js\<close>:
  \<^verbatim>\<open>/\["(https:\/\/lh3\.googleusercontent\.com\/[^"]+)",(\d+),(\d+)\]/g\<close>

  The pattern is a concatenation of literals and three greedy repetitions. Each repetition
  is followed by a literal code unit outside the repeated class (\<^verbatim>\<open>"\<close> after
  \<^verbatim>\<open>[^"]+\<close>, \<^verbatim>\<open>,\<close> and \<^verbatim>\<open>]\<close> after \<^verbatim>\<open>\d+\<close>), so
  giving back code units never helps: at a given start position the only candidate is the
  longest run, which is what \<open>takeWhile\<close> takes. A negated class matches line terminators
  too, and \<^verbatim>\<open>\d\<close> is \<^verbatim>\<open>[0-9]\<close> only.
\<close>

definition quote :: "16 word" where
  "quote = 0x22"

definition isDigit :: "16 word \<Rightarrow> bool" where
  "isDigit c \<longleftrightarrow> 0x30 \<le> c \<and> c \<le> 0x39"

definition host :: jsstring where
  "host = js ''https://lh3.googleusercontent.com/''"

text \<open>Matching a literal: the rest of the text behind it, or \<open>None\<close>.\<close>

fun literal :: "jsstring \<Rightarrow> jsstring \<Rightarrow> jsstring option" where
  "literal [] s = Some s"
| "literal (p # ps) [] = None"
| "literal (p # ps) (c # cs) = (if p = c then literal ps cs else None)"

text \<open>
  The match array: \<open>group1\<close>, \<open>group2\<close>, \<open>group3\<close> are \<^verbatim>\<open>match[1]\<close>,
  \<^verbatim>\<open>match[2]\<close>, \<^verbatim>\<open>match[3]\<close>.
\<close>

record rmatch =
  group1 :: jsstring
  group2 :: jsstring
  group3 :: jsstring

text \<open>
  \<open>match_at s\<close> tries the pattern at the first code unit of \<open>s\<close>; on success it
  gives the groups and the text behind the match.
\<close>

definition match_at :: "jsstring \<Rightarrow> (rmatch \<times> jsstring) option" where
  \<open>match_at s =
    (case literal (js ''["'' @ host) s of
       None \<Rightarrow> None
     | Some s1 \<Rightarrow>
        let path = takeWhile (\<lambda>c. c \<noteq> quote) s1;
            s2 = dropWhile (\<lambda>c. c \<noteq> quote) s1
        in if path = [] then None
           else (case literal (js ''",'') s2 of
              None \<Rightarrow> None
            | Some s3 \<Rightarrow>
               let w = takeWhile isDigit s3;
                   s4 = dropWhile isDigit s3
               in if w = [] then None
                  else (case literal (js '','') s4 of
                     None \<Rightarrow> None
                   | Some s5 \<Rightarrow>
                      let h = takeWhile isDigit s5;
                          s6 = dropWhile isDigit s5
                      in if h = [] then None
                         else (case literal (js '']'') s6 of
                            None \<Rightarrow> None
                          | Some s7 \<Rightarrow>
                             Some (\<lparr>group1 = host @ path, group2 = w, group3 = h\<rparr>, s7)))))\<close>

text \<open>
  \<^verbatim>\<open>regex.exec(html)\<close> with the \<^verbatim>\<open>g\<close> flag searches from
  \<^verbatim>\<open>regex.lastIndex\<close> for the leftmost position where the pattern matches and sets
  \<^verbatim>\<open>lastIndex\<close> behind the match. The pattern has no anchor and no look-behind, so
  a match depends only on the text from \<^verbatim>\<open>lastIndex\<close> on: the argument of
  \<open>exec\<close> is that suffix, and the suffix it returns is the text from the new
  \<^verbatim>\<open>lastIndex\<close> on. \<open>None\<close> is \<^verbatim>\<open>null\<close>.
\<close>

fun exec :: "jsstring \<Rightarrow> (rmatch \<times> jsstring) option" where
  "exec [] = match_at []"
| "exec (c # cs) =
     (case match_at (c # cs) of
        Some r \<Rightarrow> Some r
      | None \<Rightarrow> exec cs)"

text \<open>
  \<^verbatim>\<open>parseInt(d, 10)\<close> on a group of \<^verbatim>\<open>\d+\<close>: the decimal value of the digits.
  (A JavaScript number holds this value exactly up to \<open>2 ^ 53\<close>; above, it is rounded to a
  double that is still above \<open>2 ^ 53\<close>, so the comparison with 300 is the one made here.)
\<close>

definition digitValue :: "16 word \<Rightarrow> nat" where
  "digitValue c = unat c - 0x30"

definition parseInt :: "jsstring \<Rightarrow> nat" where
  "parseInt d = foldl (\<lambda>n c. 10 * n + digitValue c) 0 d"

section \<open>The extraction loop\<close>

record photo =
  url :: jsstring
  width :: nat
  height :: nat

text \<open>
  One pass through the body of the \<^verbatim>\<open>while\<close> loop (lines 32 to 46) for the match
  \<open>m\<close>: the new values of \<^verbatim>\<open>photos\<close> and \<^verbatim>\<open>seenUrls\<close>.
\<close>

definition accept :: "rmatch \<Rightarrow> photo list \<Rightarrow> jsstring set \<Rightarrow> photo list \<times> jsstring set" where
  "accept m photos seenUrls =
    (let u = group1 m;
         w = parseInt (group2 m);
         h = parseInt (group3 m)
     in if w > 300 \<and> h > 300 then
          (if u \<notin> seenUrls
           then (photos @ [\<lparr>url = u, width = w, height = h\<rparr>], insert u seenUrls)
           else (photos, seenUrls))
        else (photos, seenUrls))"

section \<open>Facts about the pattern\<close>

lemma literal_iff: "literal p s = Some r \<longleftrightarrow> s = p @ r"
  by (induction p s rule: literal.induct) auto

text \<open>The text consumed by a match, rebuilt from its groups.\<close>

definition descriptor :: "jsstring \<Rightarrow> jsstring \<Rightarrow> jsstring \<Rightarrow> jsstring" where
  \<open>descriptor u w h = js ''["'' @ u @ js ''",'' @ w @ js '','' @ h @ js '']''\<close>

definition digits :: "jsstring \<Rightarrow> bool" where
  "digits d \<longleftrightarrow> d \<noteq> [] \<and> list_all isDigit d"

definition hosted :: "jsstring \<Rightarrow> bool" where
  "hosted u \<longleftrightarrow>
    (case literal host u of None \<Rightarrow> False | Some path \<Rightarrow> path \<noteq> [] \<and> quote \<notin> set path)"

lemma literal_append: "literal p (p @ r) = Some r"
  by (simp add: literal_iff)

lemma hosted_iff:
  "hosted u \<longleftrightarrow> (\<exists>path. u = host @ path \<and> path \<noteq> [] \<and> quote \<notin> set path)"
  by (auto simp: hosted_def literal_iff literal_append split: option.splits)

lemma match_at_shape:
  assumes "match_at s = Some (m, r)"
  shows "s = descriptor (group1 m) (group2 m) (group3 m) @ r"
    and "hosted (group1 m)" and "digits (group2 m)" and "digits (group3 m)"
proof -
  from assms obtain s1 where s1: \<open>literal (js ''["'' @ host) s = Some s1\<close>
    by (auto simp: match_at_def split: option.splits)
  define path where "path = takeWhile (\<lambda>c. c \<noteq> quote) s1"
  define s2 where "s2 = dropWhile (\<lambda>c. c \<noteq> quote) s1"
  from assms s1 have p: "path \<noteq> []"
    by (auto simp: match_at_def Let_def path_def split: option.splits if_splits)
  from assms s1 p obtain s3 where s3: \<open>literal (js ''",'') s2 = Some s3\<close>
    by (auto simp: match_at_def Let_def path_def s2_def split: option.splits if_splits)
  define w where "w = takeWhile isDigit s3"
  define s4 where "s4 = dropWhile isDigit s3"
  from assms s1 p s3 have w: "w \<noteq> []"
    by (auto simp: match_at_def Let_def path_def s2_def w_def split: option.splits if_splits)
  from assms s1 p s3 w obtain s5 where s5: "literal (js '','') s4 = Some s5"
    by (auto simp: match_at_def Let_def path_def s2_def w_def s4_def
        split: option.splits if_splits)
  define h where "h = takeWhile isDigit s5"
  define s6 where "s6 = dropWhile isDigit s5"
  from assms s1 p s3 w s5 have h: "h \<noteq> []"
    by (auto simp: match_at_def Let_def path_def s2_def w_def s4_def h_def
        split: option.splits if_splits)
  from assms s1 p s3 w s5 h have s7: "literal (js '']'') s6 = Some r"
    and m: "m = \<lparr>group1 = host @ path, group2 = w, group3 = h\<rparr>"
    by (auto simp: match_at_def Let_def path_def s2_def w_def s4_def h_def s6_def
        split: option.splits if_splits)
  have "s1 = path @ s2" "s3 = w @ s4" "s5 = h @ s6"
    by (simp_all add: path_def s2_def w_def s4_def h_def s6_def)
  with s1 s3 s5 s7 show "s = descriptor (group1 m) (group2 m) (group3 m) @ r"
    by (simp add: literal_iff descriptor_def m)
  have "quote \<notin> set path"
    unfolding path_def by (auto dest: set_takeWhileD)
  with p show "hosted (group1 m)"
    by (auto simp: hosted_iff m)
  have "list_all isDigit w" "list_all isDigit h"
    unfolding w_def h_def by (auto simp: list_all_iff dest: set_takeWhileD)
  with w h show "digits (group2 m)" "digits (group3 m)"
    by (simp_all add: digits_def m)
qed

lemma not_digit_comma: "\<not> isDigit 0x2C" and not_digit_bracket: "\<not> isDigit 0x5D"
  by (simp_all add: isDigit_def)

lemma takeWhile_stop:
  "list_all P xs \<Longrightarrow> \<not> P y \<Longrightarrow> takeWhile P (xs @ y # ys) = xs"
  by (induction xs) auto

lemma dropWhile_stop:
  "list_all P xs \<Longrightarrow> \<not> P y \<Longrightarrow> dropWhile P (xs @ y # ys) = y # ys"
  by (induction xs) auto

lemma match_at_descriptor:
  assumes "hosted u" and "digits w" and "digits h"
  shows "match_at (descriptor u w h @ r) = Some (\<lparr>group1 = u, group2 = w, group3 = h\<rparr>, r)"
proof -
  from assms(1) obtain path where u: "u = host @ path" and p: "path \<noteq> []"
    and q: "list_all (\<lambda>c. c \<noteq> quote) path"
    by (auto simp: hosted_iff list_all_iff)
  have 1: \<open>literal (js ''["'' @ host) (descriptor u w h @ r)
      = Some (path @ quote # js '','' @ w @ js '','' @ h @ js '']'' @ r)\<close>
    by (simp add: literal_iff descriptor_def u js_def quote_def)
  have 2: \<open>literal (js ''",'') (quote # js '','' @ w @ js '','' @ h @ js '']'' @ r)
      = Some (w @ 0x2C # h @ js '']'' @ r)\<close>
    by (simp add: literal_iff js_def quote_def)
  have 3: \<open>literal (js '','') (0x2C # h @ js '']'' @ r) = Some (h @ 0x5D # r)\<close>
    by (simp add: literal_iff js_def)
  have 4: \<open>literal (js '']'') (0x5D # r) = Some r\<close>
    by (simp add: literal_iff js_def)
  from assms(2,3) have d: "w \<noteq> []" "h \<noteq> []" "list_all isDigit w" "list_all isDigit h"
    by (simp_all add: digits_def)
  show ?thesis
    unfolding match_at_def 1
    by (simp add: Let_def takeWhile_stop [OF q] dropWhile_stop [OF q] p 2
        takeWhile_stop [OF d(3) not_digit_comma] dropWhile_stop [OF d(3) not_digit_comma]
        takeWhile_stop [OF d(4) not_digit_bracket] dropWhile_stop [OF d(4) not_digit_bracket]
        d 3 4 u)
qed

lemma descriptor_length: "length (descriptor u w h) > 0"
  by (simp add: descriptor_def js_def)

lemma match_at_shorter: "match_at s = Some (m, r) \<Longrightarrow> length r < length s"
  using match_at_shape(1) [of s m r] descriptor_length [of "group1 m" "group2 m" "group3 m"]
  by (metis length_append less_add_same_cancel2)

lemma exec_shorter: "exec s = Some (m, r) \<Longrightarrow> length r < length s"
proof (induction s)
  case Nil
  then show ?case by (auto dest: match_at_shorter)
next
  case (Cons c cs)
  then show ?case
    by (auto split: option.splits dest: match_at_shorter)
qed

text \<open>
  The \<^verbatim>\<open>while\<close> loop of lines 31 to 52. \<open>rest\<close> is the text from
  \<^verbatim>\<open>regex.lastIndex\<close> on. The quota test of line 49 comes after the body, so
  the loop leaves as soon as the sixth photo is pushed. Every match consumes at least one
  code unit, which is why the loop ends.
\<close>

function loop :: "jsstring \<Rightarrow> photo list \<Rightarrow> jsstring set \<Rightarrow> photo list" where
  "loop rest photos seenUrls =
    (case exec rest of
       None \<Rightarrow> photos
     | Some (m, rest') \<Rightarrow>
        (case accept m photos seenUrls of
           (photos', seenUrls') \<Rightarrow>
             if length photos' \<ge> 6 then photos'
             else loop rest' photos' seenUrls'))"
  by pat_completeness auto
termination
  by (relation "measure (\<lambda>(rest, photos, seenUrls). length rest)")
    (auto dest: exec_shorter)

declare loop.simps [simp del]

text \<open>
  Lines 25 to 55, the part of \<^verbatim>\<open>fetchGooglePhotos\<close> that the specification calls
  \<open>extract\<close>: the regular expression object (and with it \<^verbatim>\<open>lastIndex = 0\<close>),
  \<^verbatim>\<open>photos\<close> and \<^verbatim>\<open>seenUrls\<close> are created anew in every call.
\<close>

definition extractPhotos :: "jsstring \<Rightarrow> photo list" where
  "extractPhotos html = loop html [] {}"

text \<open>
  The \<^verbatim>\<open>try\<close> block around it. The answer of the network is an argument:
  \<open>None\<close> when \<^verbatim>\<open>fetch\<close> rejects, otherwise the response with its
  \<^verbatim>\<open>ok\<close> flag, its status and the text that \<^verbatim>\<open>response.text()\<close>
  resolves to (\<open>None\<close> when that promise rejects). A thrown error is \<open>Inl\<close>.
\<close>

datatype error = FetchRejected | FailedToFetchAlbum nat | TextRejected

record response =
  ok :: bool
  status :: nat
  body :: "jsstring option"

definition tryBlock :: "response option \<Rightarrow> error + photo list" where
  "tryBlock r =
    (case r of
       None \<Rightarrow> Inl FetchRejected
     | Some resp \<Rightarrow>
        if \<not> ok resp then Inl (FailedToFetchAlbum (status resp))
        else (case body resp of
                None \<Rightarrow> Inl TextRejected
              | Some html \<Rightarrow> Inr (extractPhotos html)))"

text \<open>The \<^verbatim>\<open>catch\<close> clause turns every error into the empty list.\<close>

definition fetchGooglePhotos :: "response option \<Rightarrow> photo list" where
  "fetchGooglePhotos r = (case tryBlock r of Inl e \<Rightarrow> [] | Inr photos \<Rightarrow> photos)"

section \<open>The gallery\<close>

text \<open>
  \<^verbatim>\<open>renderGallery\<close> builds one \<^verbatim>\<open>div\<close> per photo. What the specification
  calls the size class is the grid span added to the base classes (lines 86 to 99), and
  the overlay flag is whether the caption overlay is appended (line 110). Of the image
  only \<^verbatim>\<open>src\<close> depends on the photo; the constant attributes are left out.
\<close>

definition baseClasses :: string where
  "baseClasses = ''relative group overflow-hidden rounded-3xl shadow-md cursor-pointer bg-gray-100''"

definition classesFor :: "nat \<Rightarrow> string" where
  "classesFor index =
    (if index = 0 then baseClasses @ '' col-span-2 row-span-2''
     else if index = 5 then baseClasses @ '' col-span-2''
     else baseClasses @ '''')"

record tile =
  className :: string
  src :: jsstring
  overlay :: bool

definition makeTile :: "nat \<Rightarrow> photo \<Rightarrow> tile" where
  "makeTile index p =
    \<lparr>className = classesFor index, src = url p, overlay = (index = 0 \<or> index = 5)\<rparr>"

text \<open>\<^verbatim>\<open>photos.forEach((photo, index) => ...)\<close>: the tiles in the order appended.\<close>

definition tiles :: "photo list \<Rightarrow> tile list" where
  "tiles photos = map (\<lambda>(index, p). makeTile index p) (enumerate 0 photos)"

text \<open>
  The content of the element \<^verbatim>\<open>gallery-grid\<close>: whatever was there before, the
  message of line 71, or the tiles. The first argument of \<open>renderGallery\<close> is that
  element, \<open>None\<close> when \<^verbatim>\<open>getElementById\<close> finds none.
\<close>

datatype content = Placeholder | Unavailable | Tiles "tile list"

definition renderGallery :: "content option \<Rightarrow> photo list \<Rightarrow> content option" where
  "renderGallery container photos =
    (case container of
       None \<Rightarrow> None
     | Some old \<Rightarrow>
        if length photos = 0 then Some Unavailable
        else Some (Tiles (tiles photos)))"

text \<open>
  The slot of the specification, read off a tile. A tile is LARGE when its classes are the
  base classes with the two-by-two span, WIDE when they are the base classes with the
  two-column span, and SMALL when they are the base classes with nothing added. Any other
  class string is none of the three.
\<close>

datatype sizeClass = LARGE | SMALL | WIDE

definition sizeClassOf :: "string \<Rightarrow> sizeClass option" where
  "sizeClassOf c =
    (if c = baseClasses @ '' col-span-2 row-span-2'' then Some LARGE
     else if c = baseClasses @ '' col-span-2'' then Some WIDE
     else if c = baseClasses then Some SMALL
     else None)"

definition slot :: "tile \<Rightarrow> (sizeClass \<times> bool) option" where
  "slot t =
    (case sizeClassOf (className t) of
       None \<Rightarrow> None
     | Some sz \<Rightarrow> Some (sz, overlay t))"

section \<open>The vocabulary of the specification\<close>

text \<open>
  The descriptor matches of a text, from left to right: what \<^verbatim>\<open>regex.exec\<close> yields
  when called until it answers \<^verbatim>\<open>null\<close>.
\<close>

function matches :: "jsstring \<Rightarrow> rmatch list" where
  "matches s = (case exec s of None \<Rightarrow> [] | Some (m, r) \<Rightarrow> m # matches r)"
  by pat_completeness auto
termination
  by (relation "measure length") (auto dest: exec_shorter)

declare matches.simps [simp del]

text \<open>The photo a match stands for, and the size filter.\<close>

definition candidate :: "rmatch \<Rightarrow> photo" where
  "candidate m =
    \<lparr>url = group1 m, width = parseInt (group2 m), height = parseInt (group3 m)\<rparr>"

definition passes :: "photo \<Rightarrow> bool" where
  "passes p \<longleftrightarrow> width p > 300 \<and> height p > 300"

text \<open>The photos of the matches that pass the size filter, in the order of the text.\<close>

definition passing :: "jsstring \<Rightarrow> photo list" where
  "passing html = filter passes (map candidate (matches html))"

text \<open>
  Order of first occurrence: a photo stays, and every later photo with its URL goes.
\<close>

fun first_occurrences :: "photo list \<Rightarrow> photo list" where
  "first_occurrences [] = []"
| "first_occurrences (p # ps) = p # first_occurrences (filter (\<lambda>q. url q \<noteq> url p) ps)"

text \<open>Successive calls, each on its own text.\<close>

definition runs :: "jsstring list \<Rightarrow> photo list list" where
  "runs htmls = map extractPhotos htmls"

section \<open>The loop and the specification\<close>

lemma accept_cases:
  "accept m photos seen =
     (if passes (candidate m) \<and> url (candidate m) \<notin> seen
      then (photos @ [candidate m], insert (url (candidate m)) seen)
      else (photos, seen))"
  by (simp add: accept_def candidate_def passes_def Let_def)

lemma loop_spec:
  assumes "length photos < 6"
  shows "loop rest photos seen =
     take 6 (photos @ first_occurrences
        (filter (\<lambda>p. url p \<notin> seen) (filter passes (map candidate (matches rest)))))"
  using assms
proof (induction rest photos seen rule: loop.induct)
  case (1 rest photos seen)
  show ?case
  proof (cases "exec rest")
    case None
    with "1.prems" show ?thesis
      by (subst loop.simps, subst matches.simps) simp
  next
    case (Some a)
    obtain m rest' where a: "a = (m, rest')" by (cases a)
    define p where "p = candidate m"
    have ms: "matches rest = m # matches rest'"
      by (subst matches.simps) (simp add: Some a)
    show ?thesis
    proof (cases "passes p \<and> url p \<notin> seen")
      case False
      then have acc: "accept m photos seen = (photos, seen)"
        by (simp add: accept_cases p_def)
      have "loop rest photos seen = loop rest' photos seen"
        using "1.prems" by (subst loop.simps) (simp add: Some a acc)
      also have "\<dots> = take 6 (photos @ first_occurrences
          (filter (\<lambda>p. url p \<notin> seen) (filter passes (map candidate (matches rest')))))"
        using "1.IH" [OF Some a [symmetric] acc [symmetric]] "1.prems" by simp
      finally show ?thesis
        using False by (auto simp: ms p_def)
    next
      case True
      then have acc: "accept m photos seen = (photos @ [p], insert (url p) seen)"
        by (simp add: accept_cases p_def)
      have rhs: "take 6 (photos @ first_occurrences
          (filter (\<lambda>p. url p \<notin> seen) (filter passes (map candidate (matches rest)))))
        = take 6 ((photos @ [p]) @ first_occurrences
          (filter (\<lambda>q. url q \<notin> insert (url p) seen)
             (filter passes (map candidate (matches rest')))))"
        using True
        by (simp add: ms p_def [symmetric] conj_ac)
      show ?thesis
      proof (cases "length (photos @ [p]) \<ge> 6")
        case full: True
        then have "loop rest photos seen = photos @ [p]"
          by (subst loop.simps) (simp add: Some a acc)
        moreover from full "1.prems" have "length photos = 5"
          by simp
        ultimately show ?thesis
          unfolding rhs by simp
      next
        case notfull: False
        then have "loop rest photos seen = loop rest' (photos @ [p]) (insert (url p) seen)"
          by (subst loop.simps) (simp add: Some a acc)
        also have "\<dots> = take 6 ((photos @ [p]) @ first_occurrences
          (filter (\<lambda>q. url q \<notin> insert (url p) seen)
             (filter passes (map candidate (matches rest')))))"
          using "1.IH" [OF Some a [symmetric] acc [symmetric]] notfull "1.prems" by simp
        finally show ?thesis
          unfolding rhs .
      qed
    qed
  qed
qed

lemma extractPhotos_spec:
  "extractPhotos html = take 6 (first_occurrences (filter passes (map candidate (matches html))))"
  by (simp add: extractPhotos_def loop_spec)

section \<open>First occurrences, by position\<close>

text \<open>
  \<open>first_at ps i\<close>: no photo before position \<open>i\<close> has the URL of the photo at
  \<open>i\<close>. \<open>unseen_at A ps i\<close> also asks that the URL is not in \<open>A\<close>.
\<close>

definition unseen_at :: "jsstring set \<Rightarrow> photo list \<Rightarrow> nat \<Rightarrow> bool" where
  "unseen_at A ps i \<longleftrightarrow> url (ps ! i) \<notin> A \<and> url (ps ! i) \<notin> url ` set (take i ps)"

definition first_at :: "photo list \<Rightarrow> nat \<Rightarrow> bool" where
  "first_at ps i \<longleftrightarrow> url (ps ! i) \<notin> url ` set (take i ps)"

lemma unseen_at_0: "unseen_at A (p # ps) 0 \<longleftrightarrow> url p \<notin> A"
  by (simp add: unseen_at_def)

lemma unseen_at_Suc: "unseen_at A (p # ps) (Suc i) \<longleftrightarrow> unseen_at (insert (url p) A) ps i"
  by (auto simp: unseen_at_def)

lemma first_occurrences_unseen:
  "first_occurrences (filter (\<lambda>q. url q \<notin> A) ps) =
     map (\<lambda>i. ps ! i) (filter (unseen_at A ps) [0..<length ps])"
proof (induction ps arbitrary: A)
  case Nil
  show ?case by simp
next
  case (Cons p ps)
  have "[0..<Suc (length ps)] = 0 # [Suc 0..<Suc (length ps)]"
    by (rule upt_conv_Cons) simp
  then have upt: "[0..<length (p # ps)] = 0 # map Suc [0..<length ps]"
    by (simp only: length_Cons map_Suc_upt)
  have "map (\<lambda>i. (p # ps) ! i) (filter (unseen_at A (p # ps)) (map Suc [0..<length ps]))
      = map (\<lambda>i. ps ! i) (filter (unseen_at (insert (url p) A) ps) [0..<length ps])"
    by (simp add: filter_map o_def unseen_at_Suc)
  also have "\<dots> = first_occurrences (filter (\<lambda>q. url q \<notin> insert (url p) A) ps)"
    by (rule Cons.IH [symmetric])
  finally have rest:
    "map (\<lambda>i. (p # ps) ! i) (filter (unseen_at A (p # ps)) (map Suc [0..<length ps]))
      = first_occurrences (filter (\<lambda>q. url q \<notin> insert (url p) A) ps)" .
  show ?case
  proof (cases "url p \<in> A")
    case True
    then have "insert (url p) A = A"
      by auto
    with True rest show ?thesis
      unfolding upt by (simp add: unseen_at_0)
  next
    case False
    have "filter (\<lambda>q. url q \<noteq> url p) (filter (\<lambda>q. url q \<notin> A) ps)
        = filter (\<lambda>q. url q \<notin> insert (url p) A) ps"
      by (induction ps) auto
    with False rest show ?thesis
      unfolding upt by (simp add: unseen_at_0 del: filter_filter)
  qed
qed

lemma first_occurrences_index:
  "first_occurrences ps = map (\<lambda>i. ps ! i) (filter (first_at ps) [0..<length ps])"
proof -
  have "unseen_at {} ps = first_at ps"
    by (auto simp: unseen_at_def first_at_def)
  with first_occurrences_unseen [of "{}" ps] show ?thesis
    by simp
qed

section \<open>A match does not depend on the text behind it\<close>

lemma exec_descriptor:
  assumes "hosted u" and "digits w" and "digits h"
  shows "exec (descriptor u w h @ r) = Some (\<lparr>group1 = u, group2 = w, group3 = h\<rparr>, r)"
proof -
  obtain c cs where "descriptor u w h @ r = c # cs"
    using descriptor_length [of u w h] by (cases "descriptor u w h @ r") auto
  with match_at_descriptor [OF assms, of r] show ?thesis
    by simp
qed

lemma match_at_Nil: "match_at [] = None"
  by (simp add: match_at_def js_def)

lemma digit_not_quote: "isDigit c \<Longrightarrow> c \<noteq> quote"
  by (auto simp: isDigit_def quote_def)

lemma digits_no_quote: "digits d \<Longrightarrow> count_list d quote = 0"
  by (auto simp: digits_def list_all_iff count_list_0_iff dest: digit_not_quote)

lemma hosted_no_quote: "hosted u \<Longrightarrow> count_list u quote = 0"
  by (auto simp: hosted_iff count_list_0_iff host_def js_def quote_def)

lemma descriptor_quotes:
  "hosted u \<Longrightarrow> digits w \<Longrightarrow> digits h \<Longrightarrow> count_list (descriptor u w h) quote = 2"
  by (simp add: descriptor_def digits_no_quote hosted_no_quote) (simp add: js_def quote_def)

lemma descriptor_start: "\<exists>tl. descriptor u w h = 0x5B # quote # tl"
  by (simp add: descriptor_def js_def quote_def)

lemma match_at_stable_None:
  assumes none: "match_at (x @ descriptor u w h @ r) = None"
    and x: "x \<noteq> []"
    and ok: "hosted u" "digits w" "digits h"
  shows "match_at (x @ descriptor u w h @ t) = None"
proof (rule ccontr)
  assume "match_at (x @ descriptor u w h @ t) \<noteq> None"
  then obtain m2 r2 where some: "match_at (x @ descriptor u w h @ t) = Some (m2, r2)"
    by auto
  define D where "D = descriptor u w h"
  define D2 where "D2 = descriptor (group1 m2) (group2 m2) (group3 m2)"
  note shape = match_at_shape [OF some]
  have eq: "(x @ D) @ t = D2 @ r2"
    using shape(1) by (simp add: D_def D2_def)
  then obtain us where "x @ D = D2 @ us \<and> us @ t = r2 \<or> (x @ D) @ us = D2 \<and> t = us @ r2"
    unfolding append_eq_append_conv2 by blast
  then show False
  proof
    assume "x @ D = D2 @ us \<and> us @ t = r2"
    then have e: "x @ D @ r = D2 @ us @ r"
      by (metis append_assoc)
    from none have "match_at (x @ D @ r) = None"
      by (simp add: D_def)
    then have "match_at (D2 @ us @ r) = None"
      by (simp only: e)
    with match_at_descriptor [OF shape(2-4), of "us @ r"] show False
      by (simp add: D2_def)
  next
    assume "(x @ D) @ us = D2 \<and> t = us @ r2"
    then have D2: "D2 = x @ D @ us"
      by simp
    have "count_list D2 quote = 2" "count_list D quote = 2"
      unfolding D_def D2_def by (simp_all add: descriptor_quotes ok shape)
    with D2 have "count_list x quote = 0"
      by simp
    then have nq: "quote \<notin> set x"
      by (simp add: count_list_0_iff)
    obtain tl2 where s2: "D2 = 0x5B # quote # tl2"
      unfolding D2_def using descriptor_start by blast
    obtain tl where s: "D = 0x5B # quote # tl"
      unfolding D_def using descriptor_start by blast
    from x obtain c x' where xc: "x = c # x'"
      by (cases x) auto
    show False
    proof (cases x')
      case Nil
      with D2 s2 s xc show False
        by (simp add: quote_def)
    next
      case (Cons d x'')
      with D2 s2 xc have "d = quote"
        by simp
      with nq xc Cons show False
        by simp
    qed
  qed
qed

lemma exec_stable:
  assumes "exec s = Some (m, r)"
  shows "\<exists>junk. s = junk @ descriptor (group1 m) (group2 m) (group3 m) @ r \<and>
     hosted (group1 m) \<and> digits (group2 m) \<and> digits (group3 m) \<and>
     (\<forall>t. exec (junk @ descriptor (group1 m) (group2 m) (group3 m) @ t) = Some (m, t))"
  using assms
proof (induction s)
  case Nil
  then show ?case by (simp add: match_at_Nil)
next
  case (Cons c cs)
  let ?D = "descriptor (group1 m) (group2 m) (group3 m)"
  show ?case
  proof (cases "match_at (c # cs)")
    case (Some a)
    with Cons.prems have here: "match_at (c # cs) = Some (m, r)"
      by simp
    note shape = match_at_shape [OF here]
    have "\<forall>t. exec ([] @ ?D @ t) = Some (m, t)"
      using exec_descriptor [OF shape(2-4)] by simp
    with shape show ?thesis
      by (metis append_Nil)
  next
    case None
    with Cons.prems have "exec cs = Some (m, r)"
      by simp
    from Cons.IH [OF this] obtain junk where cs: "cs = junk @ ?D @ r"
      and ok: "hosted (group1 m)" "digits (group2 m)" "digits (group3 m)"
      and st: "\<forall>t. exec (junk @ ?D @ t) = Some (m, t)"
      by blast
    have "match_at ((c # junk) @ ?D @ t) = None" for t
      using match_at_stable_None [of "c # junk" "group1 m" "group2 m" "group3 m" r t] None cs ok
      by simp
    then have "\<forall>t. exec ((c # junk) @ ?D @ t) = Some (m, t)"
      using st by simp
    with cs ok show ?thesis
      by (metis append_Cons)
  qed
qed

lemma exec_append: "exec s = Some (m, r) \<Longrightarrow> exec (s @ t) = Some (m, r @ t)"
  using exec_stable [of s m r] by (metis append_assoc)

lemma loop_append:
  assumes "length photos < 6" and "length (loop s photos seen) = 6"
  shows "loop (s @ t) photos seen = loop s photos seen"
  using assms
proof (induction s photos seen rule: loop.induct)
  case (1 rest photos seen)
  show ?case
  proof (cases "exec rest")
    case None
    then have "loop rest photos seen = photos"
      by (subst loop.simps) simp
    with "1.prems" show ?thesis
      by simp
  next
    case (Some a)
    obtain m rest' where a: "a = (m, rest')"
      by (cases a)
    obtain photos' seen' where acc: "accept m photos seen = (photos', seen')"
      by (cases "accept m photos seen")
    have ex: "exec (rest @ t) = Some (m, rest' @ t)"
      using Some a by (simp add: exec_append)
    show ?thesis
    proof (cases "length photos' \<ge> 6")
      case True
      then show ?thesis
        by (subst loop.simps, subst (2) loop.simps) (simp add: Some a acc ex)
    next
      case False
      then have step: "loop rest photos seen = loop rest' photos' seen'"
        by (subst loop.simps) (simp add: Some a acc)
      from False have "loop (rest @ t) photos seen = loop (rest' @ t) photos' seen'"
        by (subst loop.simps) (simp add: acc ex)
      also have "\<dots> = loop rest' photos' seen'"
        using "1.IH" [OF Some a [symmetric] acc [symmetric] False] False "1.prems"(2) step
        by simp
      finally show ?thesis
        using step by simp
    qed
  qed
qed

lemma extractPhotos_append:
  "length (extractPhotos html) = 6 \<Longrightarrow> extractPhotos (html @ t) = extractPhotos html"
  by (simp add: extractPhotos_def loop_append)

lemma first_occurrences_subset: "set (first_occurrences ps) \<subseteq> set ps"
  by (induction ps rule: first_occurrences.induct) auto

lemma first_occurrences_distinct: "distinct (map url (first_occurrences ps))"
proof (induction ps rule: first_occurrences.induct)
  case 1
  show ?case by simp
next
  case (2 p ps)
  have "url p \<notin> url ` set (first_occurrences (filter (\<lambda>q. url q \<noteq> url p) ps))"
    using first_occurrences_subset [of "filter (\<lambda>q. url q \<noteq> url p) ps"] by auto
  with 2 show ?case by simp
qed

lemma first_occurrences_append:
  "first_occurrences (xs @ ys) =
     first_occurrences xs @ first_occurrences (filter (\<lambda>q. url q \<notin> url ` set xs) ys)"
proof (induction xs arbitrary: ys rule: first_occurrences.induct)
  case 1
  show ?case by simp
next
  case (2 p ps)
  have "filter (\<lambda>q. url q \<notin> url ` set (filter (\<lambda>q. url q \<noteq> url p) ps))
          (filter (\<lambda>q. url q \<noteq> url p) ys)
        = filter (\<lambda>q. url q \<notin> url ` set (p # ps)) ys"
    by (induction ys) auto
  with 2 [of "filter (\<lambda>q. url q \<noteq> url p) ys"] show ?case
    by simp
qed

lemma extractPhotos_length: "length (extractPhotos html) \<le> 6"
  by (simp add: extractPhotos_spec)

lemma makeTile_eq:
  "makeTile i p =
     (if i = 0 then \<lparr>className = baseClasses @ '' col-span-2 row-span-2'', src = url p, overlay = True\<rparr>
      else if i = 5 then \<lparr>className = baseClasses @ '' col-span-2'', src = url p, overlay = True\<rparr>
      else \<lparr>className = baseClasses, src = url p, overlay = False\<rparr>)"
  by (simp add: makeTile_def classesFor_def)

lemma className_makeTile:
  "className (makeTile i p) =
     (if i = 0 then baseClasses @ '' col-span-2 row-span-2''
      else if i = 5 then baseClasses @ '' col-span-2''
      else baseClasses)"
  by (simp add: makeTile_eq)

lemma overlay_makeTile: "overlay (makeTile i p) \<longleftrightarrow> i = 0 \<or> i = 5"
  by (simp add: makeTile_eq)

lemma slot_makeTile:
  "slot (makeTile i p) =
     Some (if i = 0 then (LARGE, True) else if i = 5 then (WIDE, True) else (SMALL, False))"
  by (simp add: slot_def makeTile_eq sizeClassOf_def)

lemma tiles_nth: "i < length photos \<Longrightarrow> tiles photos ! i = makeTile i (photos ! i)"
  by (simp add: tiles_def nth_enumerate_eq)

lemma tiles_length: "length (tiles photos) = length photos"
  by (simp add: tiles_def)

lemma matches_descriptor:
  assumes "hosted u" and "digits w" and "digits h"
  shows "matches (descriptor u w h @ r) = \<lparr>group1 = u, group2 = w, group3 = h\<rparr> # matches r"
  by (subst matches.simps) (simp add: exec_descriptor [OF assms])

lemma matches_Nil: "matches [] = []"
  by (subst matches.simps) (simp add: match_at_Nil)

lemma matches_descriptor_end:
  assumes "hosted u" and "digits w" and "digits h"
  shows "matches (descriptor u w h) = [\<lparr>group1 = u, group2 = w, group3 = h\<rparr>]"
  using matches_descriptor [OF assms, of "[]"] matches_Nil by simp

section \<open>Sample pages\<close>

text \<open>
  Short names for the examples: \<open>entry\<close> is the text of a descriptor on the known
  host, \<open>hit\<close> the match it gives and \<open>pic\<close> the photo. \<open>album9\<close> is a page of
  ten descriptors, \<open>album\<close> a page of four behind some markup.
\<close>

definition entry :: "string \<Rightarrow> string \<Rightarrow> string \<Rightarrow> jsstring" where
  "entry name w h = descriptor (host @ js name) (js w) (js h)"

definition hit :: "string \<Rightarrow> string \<Rightarrow> string \<Rightarrow> rmatch" where
  "hit name w h = \<lparr>group1 = host @ js name, group2 = js w, group3 = js h\<rparr>"

definition pic :: "string \<Rightarrow> nat \<Rightarrow> nat \<Rightarrow> photo" where
  "pic name w h = \<lparr>url = host @ js name, width = w, height = h\<rparr>"

definition album9 :: jsstring where
  \<open>album9 = js ''["https://lh3.googleusercontent.com/x",200,200]["https://lh3.googleusercontent.com/a",400,400]["https://lh3.googleusercontent.com/b",400,400]["https://lh3.googleusercontent.com/c",400,400]["https://lh3.googleusercontent.com/a",500,500]["https://lh3.googleusercontent.com/d",400,400]["https://lh3.googleusercontent.com/e",400,400]["https://lh3.googleusercontent.com/f",400,400]["https://lh3.googleusercontent.com/x",800,600]["https://lh3.googleusercontent.com/g",400,400]''\<close>

lemma album9_entries:
  "album9 = entry ''x'' ''200'' ''200'' @ entry ''a'' ''400'' ''400'' @ entry ''b'' ''400'' ''400''
     @ entry ''c'' ''400'' ''400'' @ entry ''a'' ''500'' ''500'' @ entry ''d'' ''400'' ''400''
     @ entry ''e'' ''400'' ''400'' @ entry ''f'' ''400'' ''400'' @ entry ''x'' ''800'' ''600''
     @ entry ''g'' ''400'' ''400'' @ []"
  by (simp add: album9_def entry_def descriptor_def host_def js_def)

definition album :: jsstring where
  \<open>album = js ''<script>["https://lh3.googleusercontent.com/a",1200,800],["https://lh3.googleusercontent.com/b",300,900],["https://lh3.googleusercontent.com/a",640,480],["https://lh3.googleusercontent.com/b",900,600]''\<close>

definition page9 :: "response option" where
  "page9 = Some \<lparr>ok = True, status = 200, body = Some album9\<rparr>"

lemmas evaluation =
  matches_descriptor matches_descriptor_end matches_Nil hosted_def literal_append digits_def
  isDigit_def js_def quote_def candidate_def parseInt_def digitValue_def pic_def hit_def
  entry_def passes_def

lemma matches_album9:
  "matches album9 =
    [hit ''x'' ''200'' ''200'', hit ''a'' ''400'' ''400'', hit ''b'' ''400'' ''400'',
     hit ''c'' ''400'' ''400'', hit ''a'' ''500'' ''500'', hit ''d'' ''400'' ''400'',
     hit ''e'' ''400'' ''400'', hit ''f'' ''400'' ''400'', hit ''x'' ''800'' ''600'',
     hit ''g'' ''400'' ''400'']"
  unfolding album9_entries by (simp add: evaluation)

lemma matches_album:
  "matches album =
    [hit ''a'' ''1200'' ''800'', hit ''b'' ''300'' ''900'', hit ''a'' ''640'' ''480'',
     hit ''b'' ''900'' ''600'']"
  by code_simp

lemma candidate_hits:
  "candidate (hit ''x'' ''200'' ''200'') = pic ''x'' 200 200"
  "candidate (hit ''x'' ''800'' ''600'') = pic ''x'' 800 600"
  "candidate (hit ''a'' ''400'' ''400'') = pic ''a'' 400 400"
  "candidate (hit ''b'' ''400'' ''400'') = pic ''b'' 400 400"
  "candidate (hit ''c'' ''400'' ''400'') = pic ''c'' 400 400"
  "candidate (hit ''d'' ''400'' ''400'') = pic ''d'' 400 400"
  "candidate (hit ''e'' ''400'' ''400'') = pic ''e'' 400 400"
  "candidate (hit ''f'' ''400'' ''400'') = pic ''f'' 400 400"
  "candidate (hit ''g'' ''400'' ''400'') = pic ''g'' 400 400"
  "candidate (hit ''a'' ''500'' ''500'') = pic ''a'' 500 500"
  "candidate (hit ''a'' ''1200'' ''800'') = pic ''a'' 1200 800"
  "candidate (hit ''a'' ''640'' ''480'') = pic ''a'' 640 480"
  "candidate (hit ''b'' ''300'' ''900'') = pic ''b'' 300 900"
  "candidate (hit ''b'' ''900'' ''600'') = pic ''b'' 900 600"
  by (simp_all add: evaluation)

lemma pic_sel:
  "url (pic n w h) = host @ js n" "width (pic n w h) = w" "height (pic n w h) = h"
  by (simp_all add: pic_def)

lemma extractPhotos_album9:
  "extractPhotos album9 =
    [pic ''a'' 400 400, pic ''b'' 400 400, pic ''c'' 400 400,
     pic ''d'' 400 400, pic ''e'' 400 400, pic ''f'' 400 400]"
  unfolding extractPhotos_spec matches_album9
  by (simp add: candidate_hits passes_def pic_sel js_def)

lemma extractPhotos_album: "extractPhotos album = [pic ''a'' 1200 800, pic ''b'' 900 600]"
  unfolding extractPhotos_spec matches_album
  by (simp add: candidate_hits passes_def pic_sel js_def)

lemma fetch_page9: "fetchGooglePhotos page9 = extractPhotos album9"
  by (simp add: fetchGooglePhotos_def tryBlock_def page9_def)

section \<open>The properties of the specification\<close>

text \<open>
  C1. Whatever list of photos the gallery is given, the tile at index 0 is LARGE with the
  overlay, the tiles at indices 1 to 4 are SMALL without it, and the tile at index 5 is
  WIDE with the overlay: the tile at index 0 carries the base classes with the two-by-two
  span, the tiles at 1 to 4 the base classes alone, the tile at 5 the base classes with
  the two-column span. When the list comes from \<open>fetchGooglePhotos\<close>, an index 5
  means that the list has exactly six photos.
\<close>

theorem layout_by_index:
  "i < length photos \<Longrightarrow>
     renderGallery (Some old) photos = Some (Tiles (tiles photos)) \<and>
     (i = 0 \<longrightarrow>
        tiles photos ! i =
          \<lparr>className = baseClasses @ '' col-span-2 row-span-2'', src = url (photos ! i),
           overlay = True\<rparr> \<and>
        slot (tiles photos ! i) = Some (LARGE, True)) \<and>
     (1 \<le> i \<and> i \<le> 4 \<longrightarrow>
        tiles photos ! i =
          \<lparr>className = baseClasses, src = url (photos ! i), overlay = False\<rparr> \<and>
        slot (tiles photos ! i) = Some (SMALL, False)) \<and>
     (i = 5 \<longrightarrow>
        tiles photos ! i =
          \<lparr>className = baseClasses @ '' col-span-2'', src = url (photos ! i),
           overlay = True\<rparr> \<and>
        slot (tiles photos ! i) = Some (WIDE, True)) \<and>
     (i = 5 \<and> photos = fetchGooglePhotos r \<longrightarrow> length photos = 6)"
proof -
  assume i: "i < length photos"
  have "length (fetchGooglePhotos r) \<le> 6"
    using extractPhotos_length
    by (simp add: fetchGooglePhotos_def tryBlock_def split: option.splits)
  with i have "i = 5 \<and> photos = fetchGooglePhotos r \<longrightarrow> length photos = 6"
    by auto
  moreover from i have "renderGallery (Some old) photos = Some (Tiles (tiles photos))"
    by (auto simp: renderGallery_def)
  moreover have t: "tiles photos ! i = makeTile i (photos ! i)"
    using i by (rule tiles_nth)
  have "i = 0 \<longrightarrow>
        tiles photos ! i =
          \<lparr>className = baseClasses @ '' col-span-2 row-span-2'', src = url (photos ! i),
           overlay = True\<rparr> \<and>
        slot (tiles photos ! i) = Some (LARGE, True)"
    and "1 \<le> i \<and> i \<le> 4 \<longrightarrow>
        tiles photos ! i =
          \<lparr>className = baseClasses, src = url (photos ! i), overlay = False\<rparr> \<and>
        slot (tiles photos ! i) = Some (SMALL, False)"
    and "i = 5 \<longrightarrow>
        tiles photos ! i =
          \<lparr>className = baseClasses @ '' col-span-2'', src = url (photos ! i),
           overlay = True\<rparr> \<and>
        slot (tiles photos ! i) = Some (WIDE, True)"
    unfolding t slot_makeTile by (auto simp: makeTile_eq)
  ultimately show ?thesis
    by blast
qed

theorem layout_by_index_witness:
  "5 < length (fetchGooglePhotos page9) \<and>
   tiles (fetchGooglePhotos page9) ! 0 =
     \<lparr>className = baseClasses @ '' col-span-2 row-span-2'', src = host @ js ''a'',
      overlay = True\<rparr> \<and>
   slot (tiles (fetchGooglePhotos page9) ! 0) = Some (LARGE, True) \<and>
   tiles (fetchGooglePhotos page9) ! 3 =
     \<lparr>className = baseClasses, src = host @ js ''d'', overlay = False\<rparr> \<and>
   slot (tiles (fetchGooglePhotos page9) ! 3) = Some (SMALL, False) \<and>
   tiles (fetchGooglePhotos page9) ! 5 =
     \<lparr>className = baseClasses @ '' col-span-2'', src = host @ js ''f'', overlay = True\<rparr> \<and>
   slot (tiles (fetchGooglePhotos page9) ! 5) = Some (WIDE, True) \<and>
   length (fetchGooglePhotos page9) = 6"
proof -
  have photos: "fetchGooglePhotos page9 =
    [pic ''a'' 400 400, pic ''b'' 400 400, pic ''c'' 400 400,
     pic ''d'' 400 400, pic ''e'' 400 400, pic ''f'' 400 400]"
    by (simp add: fetch_page9 extractPhotos_album9)
  then have len: "length (fetchGooglePhotos page9) = 6"
    by simp
  then have "0 < length (fetchGooglePhotos page9)" "3 < length (fetchGooglePhotos page9)"
    "5 < length (fetchGooglePhotos page9)"
    by simp_all
  from layout_by_index [OF this(1), of Placeholder page9]
    layout_by_index [OF this(2), of Placeholder page9]
    layout_by_index [OF this(3), of Placeholder page9] len
  show ?thesis by (simp add: photos pic_sel slot_def sizeClassOf_def)
qed

text \<open>
  C2. The result never has more than six photos. Once six are accepted the scan is over:
  a text that yields six photos yields the same six whatever text is put behind it, and
  when the matches up to some point give six accepted photos, these are the result
  whatever matches follow.
\<close>

theorem quota:
  "length (extractPhotos html) \<le> 6 \<and>
   (length (extractPhotos html) = 6 \<longrightarrow> extractPhotos (html @ behind) = extractPhotos html) \<and>
   (matches html = ms @ later \<and>
    length (first_occurrences (filter passes (map candidate ms))) = 6 \<longrightarrow>
    extractPhotos html = first_occurrences (filter passes (map candidate ms)))"
proof -
  have "matches html = ms @ later \<and>
    length (first_occurrences (filter passes (map candidate ms))) = 6 \<longrightarrow>
    extractPhotos html = first_occurrences (filter passes (map candidate ms))"
    by (simp add: extractPhotos_spec first_occurrences_append)
  then show ?thesis
    using extractPhotos_length [of html] extractPhotos_append [of html behind] by blast
qed

theorem quota_witness:
  "length (extractPhotos album9) = 6 \<and>
   extractPhotos (album9 @ entry ''h'' ''400'' ''400'') = extractPhotos album9 \<and>
   matches album9 =
     [hit ''x'' ''200'' ''200'', hit ''a'' ''400'' ''400'', hit ''b'' ''400'' ''400'',
      hit ''c'' ''400'' ''400'', hit ''a'' ''500'' ''500'', hit ''d'' ''400'' ''400'',
      hit ''e'' ''400'' ''400'', hit ''f'' ''400'' ''400'']
     @ [hit ''x'' ''800'' ''600'', hit ''g'' ''400'' ''400''] \<and>
   length (first_occurrences (filter passes (map candidate
     [hit ''x'' ''200'' ''200'', hit ''a'' ''400'' ''400'', hit ''b'' ''400'' ''400'',
      hit ''c'' ''400'' ''400'', hit ''a'' ''500'' ''500'', hit ''d'' ''400'' ''400'',
      hit ''e'' ''400'' ''400'', hit ''f'' ''400'' ''400'']))) = 6 \<and>
   extractPhotos album9 = first_occurrences (filter passes (map candidate
     [hit ''x'' ''200'' ''200'', hit ''a'' ''400'' ''400'', hit ''b'' ''400'' ''400'',
      hit ''c'' ''400'' ''400'', hit ''a'' ''500'' ''500'', hit ''d'' ''400'' ''400'',
      hit ''e'' ''400'' ''400'', hit ''f'' ''400'' ''400'']))"
proof -
  have 1: "matches album9 =
     [hit ''x'' ''200'' ''200'', hit ''a'' ''400'' ''400'', hit ''b'' ''400'' ''400'',
      hit ''c'' ''400'' ''400'', hit ''a'' ''500'' ''500'', hit ''d'' ''400'' ''400'',
      hit ''e'' ''400'' ''400'', hit ''f'' ''400'' ''400'']
     @ [hit ''x'' ''800'' ''600'', hit ''g'' ''400'' ''400'']"
    by (simp add: matches_album9)
  have 2: "length (first_occurrences (filter passes (map candidate
     [hit ''x'' ''200'' ''200'', hit ''a'' ''400'' ''400'', hit ''b'' ''400'' ''400'',
      hit ''c'' ''400'' ''400'', hit ''a'' ''500'' ''500'', hit ''d'' ''400'' ''400'',
      hit ''e'' ''400'' ''400'', hit ''f'' ''400'' ''400'']))) = 6"
    by (simp add: candidate_hits passes_def pic_sel js_def)
  have 3: "length (extractPhotos album9) = 6"
    by (simp add: extractPhotos_album9)
  from quota [of album9 "entry ''h'' ''400'' ''400''" _
      "[hit ''x'' ''800'' ''600'', hit ''g'' ''400'' ''400'']"] 1 2 3
  show ?thesis by blast
qed

text \<open>
  C3. Every photo of the result is wider than 300 and higher than 300. A match whose
  width or height is at most 300 leaves \<^verbatim>\<open>photos\<close> and \<^verbatim>\<open>seenUrls\<close> as
  they are, and the photo it stands for is not in the result.
\<close>

theorem size_filter:
  "(\<forall>p \<in> set (extractPhotos html). width p > 300 \<and> height p > 300) \<and>
   (\<forall>m \<in> set (matches html).
      width (candidate m) \<le> 300 \<or> height (candidate m) \<le> 300 \<longrightarrow>
      candidate m \<notin> set (extractPhotos html)) \<and>
   (parseInt (group2 m) \<le> 300 \<or> parseInt (group3 m) \<le> 300 \<longrightarrow>
      accept m photos seenUrls = (photos, seenUrls))"
proof -
  have "set (extractPhotos html) \<subseteq> set (filter passes (map candidate (matches html)))"
    unfolding extractPhotos_spec
    using set_take_subset first_occurrences_subset by fast
  then have large: "\<forall>p \<in> set (extractPhotos html). width p > 300 \<and> height p > 300"
    by (auto simp: passes_def)
  then have "\<forall>m \<in> set (matches html).
      width (candidate m) \<le> 300 \<or> height (candidate m) \<le> 300 \<longrightarrow>
      candidate m \<notin> set (extractPhotos html)"
    by (meson not_le)
  moreover have "parseInt (group2 m) \<le> 300 \<or> parseInt (group3 m) \<le> 300 \<longrightarrow>
      accept m photos seenUrls = (photos, seenUrls)"
    by (auto simp: accept_def Let_def)
  ultimately show ?thesis
    using large by blast
qed

theorem size_filter_witness:
  "pic ''a'' 1200 800 \<in> set (extractPhotos album) \<and>
   width (pic ''a'' 1200 800) > 300 \<and> height (pic ''a'' 1200 800) > 300 \<and>
   hit ''b'' ''300'' ''900'' \<in> set (matches album) \<and>
   width (candidate (hit ''b'' ''300'' ''900'')) \<le> 300 \<and>
   candidate (hit ''b'' ''300'' ''900'') \<notin> set (extractPhotos album) \<and>
   parseInt (group2 (hit ''b'' ''300'' ''900'')) \<le> 300 \<and>
   accept (hit ''b'' ''300'' ''900'') [pic ''a'' 1200 800] {host @ js ''a''}
     = ([pic ''a'' 1200 800], {host @ js ''a''})"
proof -
  have 1: "pic ''a'' 1200 800 \<in> set (extractPhotos album)"
    by (simp add: extractPhotos_album)
  have 2: "hit ''b'' ''300'' ''900'' \<in> set (matches album)"
    by (simp add: matches_album)
  have 3: "width (candidate (hit ''b'' ''300'' ''900'')) \<le> 300"
    by (simp add: candidate_hits pic_sel)
  have 4: "parseInt (group2 (hit ''b'' ''300'' ''900'')) \<le> 300"
    using 3 by (simp add: candidate_def)
  from size_filter [of album "hit ''b'' ''300'' ''900''" "[pic ''a'' 1200 800]"
      "{host @ js ''a''}"] 1 2 3 4
  show ?thesis by blast
qed

text \<open>
  C4. The URLs of the result are pairwise distinct. A match whose URL is the URL of a photo
  already accepted in this run leaves \<^verbatim>\<open>photos\<close> and \<^verbatim>\<open>seenUrls\<close> as they
  are.
\<close>

theorem distinct_urls:
  "distinct (map url (extractPhotos html)) \<and>
   (group1 m \<in> url ` set photos \<longrightarrow>
      accept m photos (url ` set photos) = (photos, url ` set photos))"
proof -
  have "distinct (map url (extractPhotos html))"
    unfolding extractPhotos_spec
    using first_occurrences_distinct by (simp add: take_map [symmetric] distinct_take)
  moreover have "group1 m \<in> url ` set photos \<longrightarrow>
      accept m photos (url ` set photos) = (photos, url ` set photos)"
    by (simp add: accept_def Let_def)
  ultimately show ?thesis ..
qed

theorem distinct_urls_witness:
  "group1 (hit ''a'' ''640'' ''480'') \<in> url ` set [pic ''a'' 1200 800] \<and>
   accept (hit ''a'' ''640'' ''480'') [pic ''a'' 1200 800] (url ` set [pic ''a'' 1200 800])
     = ([pic ''a'' 1200 800], url ` set [pic ''a'' 1200 800]) \<and>
   distinct (map url (extractPhotos album)) \<and>
   map url (extractPhotos album) = [host @ js ''a'', host @ js ''b'']"
proof -
  have 1: "group1 (hit ''a'' ''640'' ''480'') \<in> url ` set [pic ''a'' 1200 800]"
    by (simp add: hit_def pic_def)
  have 2: "map url (extractPhotos album) = [host @ js ''a'', host @ js ''b'']"
    by (simp add: extractPhotos_album pic_sel)
  from distinct_urls [of album "hit ''a'' ''640'' ''480''" "[pic ''a'' 1200 800]"] 1 2
  show ?thesis by blast
qed

text \<open>
  C5. The result lists, in the order of the text, the first six of those photos that pass
  the size filter and whose URL no earlier passing photo carried: the passing photos at
  the positions where their URL occurs for the first time.
\<close>

theorem acceptance_order:
  "extractPhotos html = take 6 (first_occurrences (passing html)) \<and>
   first_occurrences (passing html) =
     map (\<lambda>i. passing html ! i)
       (filter (first_at (passing html)) [0..<length (passing html)])"
  using extractPhotos_spec [of html] first_occurrences_index [of "passing html"]
  by (simp add: passing_def)

theorem acceptance_order_witness:
  "passing album = [pic ''a'' 1200 800, pic ''a'' 640 480, pic ''b'' 900 600] \<and>
   filter (first_at (passing album)) [0..<length (passing album)] = [0, 2] \<and>
   extractPhotos album = [pic ''a'' 1200 800, pic ''b'' 900 600] \<and>
   extractPhotos album = take 6 (first_occurrences (passing album))"
proof -
  have 1: "passing album = [pic ''a'' 1200 800, pic ''a'' 640 480, pic ''b'' 900 600]"
    by (simp add: passing_def matches_album candidate_hits passes_def pic_sel)
  have 2: "filter (first_at (passing album)) [0..<length (passing album)] = [0, 2]"
    unfolding 1 by (simp add: first_at_def upt_rec pic_sel js_def)
  from acceptance_order [of album] 1 2 show ?thesis
    by (simp add: extractPhotos_album)
qed

text \<open>
  C6. Once the page text is there, the \<^verbatim>\<open>try\<close> block returns a list for every
  text and throws nothing: the only errors are those of the fetch. The empty text, a text
  without any match and a text whose matches all fail the size filter give the empty list.
\<close>

theorem extraction_never_raises:
  "tryBlock (Some \<lparr>ok = True, status = st, body = Some html\<rparr>) = Inr (extractPhotos html) \<and>
   fetchGooglePhotos (Some \<lparr>ok = True, status = st, body = Some html\<rparr>) = extractPhotos html \<and>
   extractPhotos [] = [] \<and>
   (matches html = [] \<longrightarrow> extractPhotos html = []) \<and>
   ((\<forall>m \<in> set (matches html). \<not> passes (candidate m)) \<longrightarrow> extractPhotos html = [])"
proof -
  have "(\<forall>m \<in> set (matches html). \<not> passes (candidate m)) \<longrightarrow>
      filter passes (map candidate (matches html)) = []"
    by (auto simp: filter_empty_conv)
  then show ?thesis
    by (auto simp: tryBlock_def fetchGooglePhotos_def extractPhotos_spec matches_Nil)
qed

theorem extraction_never_raises_witness:
  "matches (js ''<html>no photos</html>'') = [] \<and>
   extractPhotos (js ''<html>no photos</html>'') = [] \<and>
   matches (entry ''b'' ''300'' ''900'') = [hit ''b'' ''300'' ''900''] \<and>
   \<not> passes (candidate (hit ''b'' ''300'' ''900'')) \<and>
   extractPhotos (entry ''b'' ''300'' ''900'') = [] \<and>
   tryBlock (Some \<lparr>ok = True, status = 200, body = Some (entry ''b'' ''300'' ''900'')\<rparr>) = Inr []"
proof -
  have 1: "matches (js ''<html>no photos</html>'') = []"
    by code_simp
  have 2: "matches (entry ''b'' ''300'' ''900'') = [hit ''b'' ''300'' ''900'']"
    by (simp add: evaluation)
  have 3: "\<not> passes (candidate (hit ''b'' ''300'' ''900''))"
    by (simp add: candidate_hits passes_def pic_sel)
  from extraction_never_raises [of 200 "js ''<html>no photos</html>''"]
    extraction_never_raises [of 200 "entry ''b'' ''300'' ''900''"] 1 2 3
  show ?thesis by simp
qed

text \<open>
  C7. Two lists of photos of the same length get the same sequence of slots, whatever
  their URLs, widths and heights: the tiles have the same classes and the same overlay
  flags, position by position, and differ in the image source only. The tiles show the
  photos in the order given.
\<close>

theorem layout_positional:
  "length ps = length qs \<Longrightarrow>
     map className (tiles ps) = map className (tiles qs) \<and>
     map overlay (tiles ps) = map overlay (tiles qs) \<and>
     map slot (tiles ps) = map slot (tiles qs) \<and>
     map src (tiles ps) = map url ps \<and>
     (ps \<noteq> [] \<longrightarrow> renderGallery (Some old) ps = Some (Tiles (tiles ps)))"
proof -
  assume len: "length ps = length qs"
  have "map className (tiles ps) = map className (tiles qs)"
    by (rule nth_equalityI) (simp_all add: len tiles_length tiles_nth className_makeTile)
  moreover have "map overlay (tiles ps) = map overlay (tiles qs)"
    by (rule nth_equalityI) (simp_all add: len tiles_length tiles_nth overlay_makeTile)
  moreover have "map slot (tiles ps) = map slot (tiles qs)"
    by (rule nth_equalityI) (simp_all add: len tiles_length tiles_nth slot_makeTile)
  moreover have "map src (tiles ps) = map url ps"
    by (rule nth_equalityI) (simp_all add: tiles_length tiles_nth makeTile_def)
  ultimately show ?thesis
    by (simp add: renderGallery_def)
qed

theorem layout_positional_witness:
  "length [pic ''a'' 400 400, pic ''b'' 500 900] = length [pic ''c'' 4000 3000, pic ''a'' 400 400] \<and>
   map className (tiles [pic ''a'' 400 400, pic ''b'' 500 900])
     = map className (tiles [pic ''c'' 4000 3000, pic ''a'' 400 400]) \<and>
   map className (tiles [pic ''a'' 400 400, pic ''b'' 500 900])
     = [baseClasses @ '' col-span-2 row-span-2'', baseClasses] \<and>
   map overlay (tiles [pic ''a'' 400 400, pic ''b'' 500 900])
     = map overlay (tiles [pic ''c'' 4000 3000, pic ''a'' 400 400]) \<and>
   map overlay (tiles [pic ''a'' 400 400, pic ''b'' 500 900]) = [True, False] \<and>
   map slot (tiles [pic ''a'' 400 400, pic ''b'' 500 900])
     = map slot (tiles [pic ''c'' 4000 3000, pic ''a'' 400 400]) \<and>
   map slot (tiles [pic ''a'' 400 400, pic ''b'' 500 900])
     = [Some (LARGE, True), Some (SMALL, False)] \<and>
   map src (tiles [pic ''a'' 400 400, pic ''b'' 500 900]) = [host @ js ''a'', host @ js ''b'']"
proof -
  have 1: "length [pic ''a'' 400 400, pic ''b'' 500 900]
      = length [pic ''c'' 4000 3000, pic ''a'' 400 400]"
    by simp
  have 2: "map slot (tiles [pic ''c'' 4000 3000, pic ''a'' 400 400])
      = [Some (LARGE, True), Some (SMALL, False)]"
    "map className (tiles [pic ''c'' 4000 3000, pic ''a'' 400 400])
      = [baseClasses @ '' col-span-2 row-span-2'', baseClasses]"
    "map overlay (tiles [pic ''c'' 4000 3000, pic ''a'' 400 400]) = [True, False]"
    by (simp_all add: tiles_def enumerate_simps slot_makeTile className_makeTile
        overlay_makeTile)
  from layout_positional [OF 1] 2 show ?thesis
    by (simp add: pic_sel)
qed

text \<open>
  C8. In any series of calls, two calls on the same text return the same list: a call
  starts from \<^verbatim>\<open>lastIndex = 0\<close>, an empty \<^verbatim>\<open>photos\<close> and an empty
  \<^verbatim>\<open>seenUrls\<close>, and keeps nothing for the next one.
\<close>

theorem extraction_idempotent:
  "i < length htmls \<Longrightarrow> j < length htmls \<Longrightarrow> htmls ! i = htmls ! j \<Longrightarrow>
     runs htmls ! i = runs htmls ! j \<and> runs htmls ! i = loop (htmls ! i) [] {}"
  by (simp add: runs_def extractPhotos_def)

theorem extraction_idempotent_witness:
  "0 < length [album, [], album] \<and> 2 < length [album, [], album] \<and>
   [album, [], album] ! 0 = [album, [], album] ! 2 \<and>
   runs [album, [], album] ! 0 = runs [album, [], album] ! 2 \<and>
   runs [album, [], album] ! 0 = [pic ''a'' 1200 800, pic ''b'' 900 600]"
proof -
  have "runs [album, [], album] ! 0 = [pic ''a'' 1200 800, pic ''b'' 900 600]"
    by (simp add: runs_def extractPhotos_album)
  with extraction_idempotent [of 0 "[album, [], album]" 2] show ?thesis
    by simp
qed

text \<open>
  What the loop would return if \<^verbatim>\<open>seenUrls\<close> outlived a call: nothing, on the
  text of the call before.
\<close>

lemma stale_seenUrls:
  "loop album [] (url ` set (extractPhotos album)) = [] \<and> extractPhotos album \<noteq> []"
  by (simp add: loop_spec matches_album candidate_hits extractPhotos_album pic_sel passes_def)

text \<open>
  C9, as stated: a URL that first occurs in a match failing the size filter and later in
  a match passing it has the later occurrence accepted. On \<open>album9\<close> the first match
  carries \<^verbatim>\<open>.../x\<close> with 200 by 200, the ninth carries it with 800 by 600, and six
  other photos are accepted in between: the URL is not in the result.
\<close>

theorem later_occurrence_counterexample:
  "map candidate (matches album9) ! 0 = pic ''x'' 200 200 \<and>
   \<not> passes (pic ''x'' 200 200) \<and>
   map candidate (matches album9) ! 8 = pic ''x'' 800 600 \<and>
   passes (pic ''x'' 800 600) \<and>
   pic ''x'' 800 600 \<notin> set (extractPhotos album9) \<and>
   url (pic ''x'' 800 600) \<notin> url ` set (extractPhotos album9)"
proof -
  have "pic ''x'' 800 600 \<notin> set (extractPhotos album9)"
    by (simp add: extractPhotos_album9 pic_def)
  moreover have "url (pic ''x'' 800 600) \<notin> url ` set (extractPhotos album9)"
    by (simp add: extractPhotos_album9 pic_sel js_def)
  ultimately show ?thesis
    by (simp add: matches_album9 candidate_hits passes_def pic_sel)
qed

text \<open>
  C9, amended. Only accepted URLs are remembered: when every earlier match with the URL of
  a passing match \<open>m\<close> failed the size filter, and fewer than six photos were accepted
  before \<open>m\<close>, then \<open>m\<close> is accepted, as the next photo of the result.
\<close>

theorem later_occurrence_accepted:
  assumes "matches html = before @ m # after"
    and "passes (candidate m)"
    and "\<forall>f \<in> set before. url (candidate f) = url (candidate m) \<longrightarrow> \<not> passes (candidate f)"
    and "n = length (first_occurrences (filter passes (map candidate before)))"
    and "n < 6"
  shows "n < length (extractPhotos html) \<and> extractPhotos html ! n = candidate m"
proof -
  define accepted where "accepted = first_occurrences (filter passes (map candidate before))"
  have fresh: "url (candidate m) \<notin> url ` set (filter passes (map candidate before))"
    using assms(3) by auto
  have "filter passes (map candidate (matches html))
      = filter passes (map candidate before) @ candidate m # filter passes (map candidate after)"
    using assms(1,2) by simp
  then obtain tail where "extractPhotos html = take 6 (accepted @ candidate m # tail)"
    using fresh by (simp add: extractPhotos_spec first_occurrences_append accepted_def)
  moreover have "length accepted = n"
    using assms(4) by (simp add: accepted_def)
  ultimately show ?thesis
    using assms(5) by (auto simp: nth_append)
qed

theorem later_occurrence_accepted_witness:
  "matches album = [hit ''a'' ''1200'' ''800'', hit ''b'' ''300'' ''900'', hit ''a'' ''640'' ''480'']
     @ hit ''b'' ''900'' ''600'' # [] \<and>
   passes (candidate (hit ''b'' ''900'' ''600'')) \<and>
   url (candidate (hit ''a'' ''1200'' ''800'')) \<noteq> url (candidate (hit ''b'' ''900'' ''600'')) \<and>
   url (candidate (hit ''b'' ''300'' ''900'')) = url (candidate (hit ''b'' ''900'' ''600'')) \<and>
   \<not> passes (candidate (hit ''b'' ''300'' ''900'')) \<and>
   url (candidate (hit ''a'' ''640'' ''480'')) \<noteq> url (candidate (hit ''b'' ''900'' ''600'')) \<and>
   1 = length (first_occurrences (filter passes (map candidate
      [hit ''a'' ''1200'' ''800'', hit ''b'' ''300'' ''900'', hit ''a'' ''640'' ''480'']))) \<and>
   (1::nat) < 6 \<and>
   1 < length (extractPhotos album) \<and>
   extractPhotos album ! 1 = candidate (hit ''b'' ''900'' ''600'')"
proof -
  have 1: "matches album
      = [hit ''a'' ''1200'' ''800'', hit ''b'' ''300'' ''900'', hit ''a'' ''640'' ''480'']
        @ hit ''b'' ''900'' ''600'' # []"
    by (simp add: matches_album)
  have 2: "passes (candidate (hit ''b'' ''900'' ''600''))"
    by (simp add: candidate_hits passes_def pic_sel)
  have 3: "\<forall>f \<in> set [hit ''a'' ''1200'' ''800'', hit ''b'' ''300'' ''900'', hit ''a'' ''640'' ''480''].
      url (candidate f) = url (candidate (hit ''b'' ''900'' ''600'')) \<longrightarrow> \<not> passes (candidate f)"
    by (simp add: candidate_hits passes_def pic_sel js_def)
  have 4: "1 = length (first_occurrences (filter passes (map candidate
      [hit ''a'' ''1200'' ''800'', hit ''b'' ''300'' ''900'', hit ''a'' ''640'' ''480''])))"
    by (simp add: candidate_hits passes_def pic_sel js_def)
  have 5: "(1::nat) < 6"
    by simp
  have 6: "url (candidate (hit ''a'' ''1200'' ''800'')) \<noteq> url (candidate (hit ''b'' ''900'' ''600''))"
    "url (candidate (hit ''b'' ''300'' ''900'')) = url (candidate (hit ''b'' ''900'' ''600''))"
    "\<not> passes (candidate (hit ''b'' ''300'' ''900''))"
    "url (candidate (hit ''a'' ''640'' ''480'')) \<noteq> url (candidate (hit ''b'' ''900'' ''600''))"
    by (simp_all add: candidate_hits passes_def pic_sel js_def)
  from later_occurrence_accepted [OF 1 2 3 4 5] 1 2 4 5 6 show ?thesis
    by blast
qed

text \<open>
  C10. The gallery takes a list of any length and has no error to raise: it makes one
  tile per photo, also beyond six photos, and every tile at an index other than 0 and 5
  is SMALL without the overlay: it carries the base classes with no span added, the URL
  of its photo and no overlay.
\<close>

theorem layout_total:
  "renderGallery (Some old) photos
     = Some (if photos = [] then Unavailable else Tiles (tiles photos)) \<and>
   length (tiles photos) = length photos \<and>
   (i < length photos \<and> i \<noteq> 0 \<and> i \<noteq> 5 \<longrightarrow>
      tiles photos ! i = \<lparr>className = baseClasses, src = url (photos ! i), overlay = False\<rparr> \<and>
      slot (tiles photos ! i) = Some (SMALL, False))"
  by (simp add: renderGallery_def tiles_length tiles_nth slot_makeTile) (simp add: makeTile_eq)

theorem layout_total_witness:
  "7 < length (replicate 8 (pic ''a'' 400 400)) \<and> (7::nat) \<noteq> 0 \<and> (7::nat) \<noteq> 5 \<and>
   tiles (replicate 8 (pic ''a'' 400 400)) ! 7
     = \<lparr>className = baseClasses, src = host @ js ''a'', overlay = False\<rparr> \<and>
   slot (tiles (replicate 8 (pic ''a'' 400 400)) ! 7) = Some (SMALL, False) \<and>
   length (tiles (replicate 8 (pic ''a'' 400 400))) = 8 \<and>
   renderGallery (Some Placeholder) (replicate 8 (pic ''a'' 400 400))
     = Some (Tiles (tiles (replicate 8 (pic ''a'' 400 400))))"
  using layout_total [of Placeholder "replicate 8 (pic ''a'' 400 400)" 7]
  by (auto simp: pic_sel)

end
